theory Spec2Isabelle
  imports Complex_Main "HOL-Library.Word" "HOL-Library.AList" "HOL-Library.Sublist"
begin

section \<open>Requests and responses\<close>

text \<open>
  What the middleware reads of an \<^verbatim>\<open>*http.Request\<close>: the header, a map from names to
  lists of values; the address of the peer; and the value stored in the request's context
  under \<^verbatim>\<open>RealIPKey\<close> when it is a string. Header names are written as the source
  writes them.
\<close>

record request =
  Header :: "string \<rightharpoonup> string list"
  RemoteAddr :: string
  ctx_RealIP :: "string option"

text \<open>\<^verbatim>\<open>Header.Get\<close>: the first value under the name, the empty string when there is none.\<close>

definition Header_Get :: "(string \<rightharpoonup> string list) \<Rightarrow> string \<Rightarrow> string" where
  "Header_Get h name = (case h name of None \<Rightarrow> [] | Some [] \<Rightarrow> [] | Some (v # _) \<Rightarrow> v)"

text \<open>
  An \<^verbatim>\<open>http.ResponseWriter\<close> as the handlers use it: the header map, the status once it
  is written, and the bytes written. As with the writers of net/http and with the
  \<^verbatim>\<open>responseWriter\<close> of this package, only the first \<^verbatim>\<open>WriteHeader\<close> counts, and a
  \<^verbatim>\<open>Write\<close> before any status writes 200.
\<close>

record responseWriter =
  header :: "string \<rightharpoonup> string list"
  status :: "nat option"
  body :: string

definition Header_Set :: "string \<Rightarrow> string \<Rightarrow> responseWriter \<Rightarrow> responseWriter" where
  "Header_Set name v w = w\<lparr>header := (header w)(name \<mapsto> [v])\<rparr>"

definition WriteHeader :: "nat \<Rightarrow> responseWriter \<Rightarrow> responseWriter" where
  "WriteHeader code w = (if status w = None then w\<lparr>status := Some code\<rparr> else w)"

definition Write :: "string \<Rightarrow> responseWriter \<Rightarrow> responseWriter" where
  "Write b w = (WriteHeader 200 w)\<lparr>body := body w @ b\<rparr>"

section \<open>Client address\<close>

text \<open>
  \<^verbatim>\<open>strings.Split\<close> for a separator of one character: the pieces between the
  separators, in order; one piece, the whole string, when the separator does not occur.
  The second argument collects the piece being read, reversed.
\<close>

fun Split_from :: "string \<Rightarrow> string \<Rightarrow> char \<Rightarrow> string list" where
  "Split_from piece [] sep = [rev piece]"
| "Split_from piece (c # cs) sep =
     (if c = sep then rev piece # Split_from [] cs sep else Split_from (c # piece) cs sep)"

definition Split :: "string \<Rightarrow> char \<Rightarrow> string list" where
  "Split s sep = Split_from [] s sep"

text \<open>
  The middleware \<^verbatim>\<open>RealIP\<close>. \<^verbatim>\<open>strings.TrimSpace\<close> and \<^verbatim>\<open>net.ParseIP\<close> belong to
  Go's library and are parameters: \<open>TrimSpace\<close>, and \<open>ParseIP\<close> whose result \<open>None\<close> is
  Go's nil. The request handed to \<open>next\<close> carries the address in its context when the
  candidate is not empty and parses.
\<close>

definition RealIP ::
  "(string \<Rightarrow> string) \<Rightarrow> (string \<Rightarrow> 'ip option) \<Rightarrow>
   (responseWriter \<Rightarrow> request \<Rightarrow> 'r) \<Rightarrow> responseWriter \<Rightarrow> request \<Rightarrow> 'r" where
  "RealIP TrimSpace ParseIP next w r =
     (let xff = Header_Get (Header r) ''X-Forwarded-For'';
          xri = Header_Get (Header r) ''X-Real-IP'';
          realIP =
            (if xff \<noteq> [] then
               (case Split xff (CHR '','') of [] \<Rightarrow> [] | ip # _ \<Rightarrow> TrimSpace ip)
             else if xri \<noteq> [] then TrimSpace xri
             else []);
          r1 = (if realIP \<noteq> [] \<and> ParseIP realIP \<noteq> None then r\<lparr>ctx_RealIP := Some realIP\<rparr> else r)
      in next w r1)"

text \<open>
  \<^verbatim>\<open>GetRealIP\<close>. \<open>SplitHostPort\<close> stands for the first result of
  \<^verbatim>\<open>net.SplitHostPort\<close>, the host, which the source uses when it is not empty.
\<close>

definition GetRealIP :: "(string \<Rightarrow> string) \<Rightarrow> request \<Rightarrow> string" where
  "GetRealIP SplitHostPort r =
     (case ctx_RealIP r of
        Some ip \<Rightarrow>
          if ip \<noteq> [] then ip
          else (let host = SplitHostPort (RemoteAddr r) in if host \<noteq> [] then host else RemoteAddr r)
      | None \<Rightarrow>
          (let host = SplitHostPort (RemoteAddr r) in if host \<noteq> [] then host else RemoteAddr r))"

text \<open>
  Instances of the two library parameters for the examples: trimming of the six ASCII
  white-space characters, and dotted-decimal IPv4 literals (four fields of one to three
  digits, none above 255, no leading zero).
\<close>

definition ascii_space :: "char \<Rightarrow> bool" where
  "ascii_space c \<longleftrightarrow> c \<in> {CHR '' '', CHR 0x09, CHR 0x0A, CHR 0x0B, CHR 0x0C, CHR 0x0D}"

definition trim_ascii :: "string \<Rightarrow> string" where
  "trim_ascii s = rev (dropWhile ascii_space (rev (dropWhile ascii_space s)))"

definition decimal_field :: "string \<Rightarrow> bool" where
  "decimal_field f \<longleftrightarrow>
     f \<noteq> [] \<and> length f \<le> 3 \<and> list_all (\<lambda>c. 48 \<le> (of_char c :: nat) \<and> (of_char c :: nat) \<le> 57) f \<and>
     (length f = 1 \<or> hd f \<noteq> CHR ''0'') \<and>
     foldl (\<lambda>n c. 10 * n + (of_char c - 48)) (0::nat) f \<le> 255"

definition ipv4_literal :: "string \<Rightarrow> string option" where
  "ipv4_literal s =
     (let fs = Split s (CHR ''.'') in if length fs = 4 \<and> list_all decimal_field fs then Some s else None)"

text \<open>
  An instance of \<open>SplitHostPort\<close> for the examples: the text before the last colon,
  nothing when there is no colon.
\<close>

definition host_before_port :: "string \<Rightarrow> string" where
  "host_before_port s =
     (if CHR '':'' \<in> set s then rev (tl (dropWhile (\<lambda>c. c \<noteq> CHR '':'') (rev s))) else [])"

section \<open>Token bucket\<close>

text \<open>
  Modelled from the spec: the type \<^verbatim>\<open>rate.Limiter\<close> of golang.org/x/time/rate is missing.
  The middleware keeps one \<^verbatim>\<open>*rate.Limiter\<close> per client key; the repository imports
  the package and holds only the calls \<^verbatim>\<open>rate.NewLimiter(limit, burst)\<close> and
  \<^verbatim>\<open>limiter.Allow()\<close>. The bucket follows section 4.2 of the specification: "capacity
  C (burst size), rate R (tokens/second), current tokens, lastRefill". Numbers are
  rationals: the specification asks for no particular floating-point behaviour. Instants
  are seconds.
\<close>

record TokenBucket =
  capacity :: rat
  refillRatePerSecond :: rat
  tokens :: rat
  lastRefill :: rat

text \<open>
  Modelled from the spec: \<^verbatim>\<open>rate.NewLimiter\<close> of golang.org/x/time/rate is missing.
  "current tokens (float, starts at C), lastRefill (instant, starts at creation time)".
  The first argument is the rate, the second the burst, as at the call site.
\<close>

definition NewLimiter :: "rat \<Rightarrow> int \<Rightarrow> rat \<Rightarrow> TokenBucket" where
  "NewLimiter r b created =
     \<lparr>capacity = of_int b, refillRatePerSecond = r, tokens = of_int b, lastRefill = created\<rparr>"

text \<open>
  Modelled from the spec: step 1 of \<^verbatim>\<open>Allow()\<close>, missing like the rest of the limiter.
  "elapsed = now - lastRefill; tokens = min(C, tokens + elapsed * R); lastRefill = now".
\<close>

definition refill :: "rat \<Rightarrow> TokenBucket \<Rightarrow> TokenBucket" where
  "refill now b =
     (let elapsed = now - lastRefill b
      in b\<lparr>tokens := min (capacity b) (tokens b + elapsed * refillRatePerSecond b),
            lastRefill := now\<rparr>)"

text \<open>
  Modelled from the spec: \<^verbatim>\<open>rate.Limiter.Allow\<close> of golang.org/x/time/rate is missing.
  "2. If tokens >= 1: tokens -= 1; return admit. 3. Else return reject."
  The result is the decision and the bucket after the call.
\<close>

definition Allow :: "rat \<Rightarrow> TokenBucket \<Rightarrow> bool \<times> TokenBucket" where
  "Allow now b =
     (let b1 = refill now b
      in if 1 \<le> tokens b1 then (True, b1\<lparr>tokens := tokens b1 - 1\<rparr>) else (False, b1))"

text \<open>A run of calls on one bucket, at the given instants: the decisions in order, and the bucket left.\<close>

fun Allow_calls :: "rat list \<Rightarrow> TokenBucket \<Rightarrow> bool list \<times> TokenBucket" where
  "Allow_calls [] b = ([], b)"
| "Allow_calls (t # ts) b =
     (let (ok, b1) = Allow t b; (oks, b2) = Allow_calls ts b1 in (ok # oks, b2))"

section \<open>Registry of limiters\<close>

text \<open>
  \<^verbatim>\<open>limiterEntry\<close>: the pointer to the limiter is an address of the store of limiter
  objects below; \<^verbatim>\<open>lastAccess\<close> is an int64 of Unix nanoseconds, compared as a signed
  number.
\<close>

type_synonym int64 = "64 word"

record limiterEntry =
  limiter :: nat
  lastAccess :: int64

text \<open>
  The variables captured by the closures of \<^verbatim>\<open>RateLimiter\<close>: the map
  \<^verbatim>\<open>limiters\<close>, kept as an association list read through \<^const>\<open>map_of\<close> because the
  cleanup ranges over it, and the limiter objects built so far, in order of construction
  (a limiter's address is its position, and the length counts the calls of the
  constructor).
\<close>

record registry =
  limiters :: "(string \<times> limiterEntry) list"
  objects :: "TokenBucket list"

text \<open>
  \<^verbatim>\<open>RateLimiterConfig\<close>. The float64 rate is a rational; the two durations are int64
  counts of nanoseconds.
\<close>

record RateLimiterConfig =
  RequestsPerSecond :: rat
  Burst :: int
  KeyFunc :: "request \<Rightarrow> string"
  CleanupInterval :: int64
  InactiveTTL :: int64

definition DefaultRateLimiterConfig :: "(string \<Rightarrow> string) \<Rightarrow> RateLimiterConfig" where
  "DefaultRateLimiterConfig SplitHostPort =
     \<lparr>RequestsPerSecond = 10, Burst = 20,
      KeyFunc = (\<lambda>r. GetRealIP SplitHostPort r),
      CleanupInterval = 5 * 60000000000, InactiveTTL = 10 * 60000000000\<rparr>"

text \<open>
  The section of \<^verbatim>\<open>getLimiter\<close> under the read lock: look the key up and, when the entry
  exists, store \<open>now\<close> in its \<^verbatim>\<open>lastAccess\<close>. The entry is reached through a pointer,
  so the store changes the entry held by the map.
\<close>

definition getLimiter_RLock :: "string \<Rightarrow> int64 \<Rightarrow> registry \<Rightarrow> nat option \<times> registry" where
  "getLimiter_RLock key now st =
     (case map_of (limiters st) key of
        Some entry \<Rightarrow>
          (Some (limiter entry),
           st\<lparr>limiters := AList.update key (entry\<lparr>lastAccess := now\<rparr>) (limiters st)\<rparr>)
      | None \<Rightarrow> (None, st))"

text \<open>
  The section under the write lock: check again, and only when the key is still absent
  build a limiter with the configured rate and burst and insert it. \<open>created\<close> is the
  instant the new bucket takes as its creation time.
\<close>

definition getLimiter_Lock ::
  "RateLimiterConfig \<Rightarrow> string \<Rightarrow> int64 \<Rightarrow> rat \<Rightarrow> registry \<Rightarrow> nat \<times> registry" where
  "getLimiter_Lock config key now created st =
     (case map_of (limiters st) key of
        Some entry \<Rightarrow>
          (limiter entry,
           st\<lparr>limiters := AList.update key (entry\<lparr>lastAccess := now\<rparr>) (limiters st)\<rparr>)
      | None \<Rightarrow>
          (let new = length (objects st)
           in (new,
               st\<lparr>objects := objects st @ [NewLimiter (RequestsPerSecond config) (Burst config) created],
                  limiters := AList.update key \<lparr>limiter = new, lastAccess = now\<rparr> (limiters st)\<rparr>)))"

definition getLimiter ::
  "RateLimiterConfig \<Rightarrow> string \<Rightarrow> int64 \<Rightarrow> rat \<Rightarrow> registry \<Rightarrow> nat \<times> registry" where
  "getLimiter config key now created st =
     (case getLimiter_RLock key now st of
        (Some l, st1) \<Rightarrow> (l, st1)
      | (None, st1) \<Rightarrow> getLimiter_Lock config key now created st1)"

text \<open>
  The loop of \<^verbatim>\<open>cleanupInactiveLimiters\<close>. Go's range over a map produces every key
  once, in no fixed order, and never a key deleted before it is reached: the loop runs
  over the keys of the list as they come, looks each up in the current map and skips the
  ones no longer there.
\<close>

fun cleanup_range :: "string list \<Rightarrow> int64 \<Rightarrow> (string \<times> limiterEntry) list \<Rightarrow> (string \<times> limiterEntry) list" where
  "cleanup_range [] cutoff m = m"
| "cleanup_range (key # keys) cutoff m =
     (case map_of m key of
        None \<Rightarrow> cleanup_range keys cutoff m
      | Some entry \<Rightarrow>
          if lastAccess entry <s cutoff then cleanup_range keys cutoff (AList.delete key m)
          else cleanup_range keys cutoff m)"

definition cleanupInactiveLimiters :: "int64 \<Rightarrow> int64 \<Rightarrow> registry \<Rightarrow> registry" where
  "cleanupInactiveLimiters now ttl st =
     (let cutoff = now - ttl
      in st\<lparr>limiters := cleanup_range (map fst (limiters st)) cutoff (limiters st)\<rparr>)"

text \<open>
  \<^verbatim>\<open>limiter.Allow()\<close> through the pointer: the decision, and the store with the limiter
  at that address updated. \<open>None\<close> stands for an address that holds no limiter; a pointer
  of the Go program always holds one.
\<close>

definition limiter_Allow :: "nat \<Rightarrow> rat \<Rightarrow> registry \<Rightarrow> (bool \<times> registry) option" where
  "limiter_Allow l t st =
     (if l < length (objects st) then
        (let (ok, b) = Allow t (objects st ! l) in Some (ok, st\<lparr>objects := (objects st)[l := b]\<rparr>))
      else None)"

text \<open>Every pointer held by the map points to a limiter that has been built.\<close>

definition pointers_valid :: "registry \<Rightarrow> bool" where
  "pointers_valid st \<longleftrightarrow> list_all (\<lambda>(key, entry). limiter entry < length (objects st)) (limiters st)"

section \<open>The rate-limiting handler\<close>

definition rate_limited_body :: string where
  \<open>rate_limited_body =
     ''{"success":false,"error":{"code":"RATE_LIMITED","message":"Too many requests, please try again later"}}''\<close>

text \<open>
  The handler returned by the middleware. \<open>next\<close> is the downstream handler; it works on
  the response writer and on a state \<open>d\<close> of its own, which the middleware cannot reach.
  The three clock readings are those of \<^verbatim>\<open>getLimiter\<close>, of the constructor of a new
  bucket and of \<^verbatim>\<open>Allow\<close>.
\<close>

definition RateLimiter_ServeHTTP ::
  "RateLimiterConfig \<Rightarrow> (responseWriter \<Rightarrow> request \<Rightarrow> 'd \<Rightarrow> responseWriter \<times> 'd) \<Rightarrow>
   int64 \<Rightarrow> rat \<Rightarrow> rat \<Rightarrow> responseWriter \<Rightarrow> request \<Rightarrow> registry \<Rightarrow> 'd \<Rightarrow>
   (responseWriter \<times> registry \<times> 'd) option" where
  "RateLimiter_ServeHTTP config next now created t w r st d =
     (let key = KeyFunc config r;
          (l, st1) = getLimiter config key now created st
      in case limiter_Allow l t st1 of
           None \<Rightarrow> None
         | Some (ok, st2) \<Rightarrow>
             if \<not> ok then
               Some (Write rate_limited_body
                       (WriteHeader 429
                          (Header_Set ''Retry-After'' ''1''
                             (Header_Set ''Content-Type'' ''application/json'' w))),
                     st2, d)
             else (let (w1, d1) = next w r d in Some (w1, st2, d1)))"

section \<open>Construction and the cleanup goroutine\<close>

text \<open>A call of a Go function returns or panics.\<close>

datatype 'a go_result = Panic string | Return 'a

text \<open>
  What \<^verbatim>\<open>RateLimiter(config)\<close> leaves behind: the configuration after the defaults, the
  map and the limiters, whether the context of the cleanup goroutine has been cancelled,
  whether the goroutine is in its loop, and whether a panic of the goroutine has ended
  the process.
\<close>

record middleware =
  configuration :: RateLimiterConfig
  state :: registry
  ctx_cancelled :: bool
  cleanup_running :: bool
  process_panicked :: bool

text \<open>
  The constructor returns the middleware in every case. The goroutine it starts begins
  with \<^verbatim>\<open>time.NewTicker(config.CleanupInterval)\<close>, which panics when the interval is
  not positive: only an interval of 0 has been replaced, so with a negative one the
  goroutine never reaches its loop and its panic, which nothing recovers, ends the
  process.
\<close>

definition RateLimiter :: "RateLimiterConfig \<Rightarrow> middleware go_result" where
  "RateLimiter config0 =
     (let config1 = (if CleanupInterval config0 = 0
                     then config0\<lparr>CleanupInterval := 5 * 60000000000\<rparr> else config0);
          config2 = (if InactiveTTL config1 = 0
                     then config1\<lparr>InactiveTTL := 10 * 60000000000\<rparr> else config1)
      in Return \<lparr>configuration = config2, state = \<lparr>limiters = [], objects = []\<rparr>,
                 ctx_cancelled = False,
                 cleanup_running = (0 <s CleanupInterval config2),
                 process_panicked = (\<not> 0 <s CleanupInterval config2)\<rparr>)"

text \<open>
  The function \<^verbatim>\<open>cancel\<close> made by \<^verbatim>\<open>context.WithCancel\<close>. The constructor assigns it
  to the blank identifier and returns the middleware only.
\<close>

definition cancel :: "middleware \<Rightarrow> middleware" where
  "cancel m = m\<lparr>ctx_cancelled := True\<rparr>"

text \<open>
  What can happen to a constructed middleware: a request is served, or the \<^verbatim>\<open>select\<close> of
  the goroutine takes one of its two cases. The case \<^verbatim>\<open>ctx.Done()\<close> can be taken only
  once the context is cancelled. When the ticker fires is not modelled: a tick comes with
  the time that the cleanup then reads. A process that has panicked serves nothing.
\<close>

datatype 'd event =
  Serve "responseWriter \<Rightarrow> request \<Rightarrow> 'd \<Rightarrow> responseWriter \<times> 'd" int64 rat rat responseWriter request 'd
| Select_ticker_C int64
| Select_ctx_Done

fun step :: "'d event \<Rightarrow> middleware \<Rightarrow> middleware" where
  "step (Serve next now created t w r d) m =
     (if process_panicked m then m
      else case RateLimiter_ServeHTTP (configuration m) next now created t w r (state m) d of
             None \<Rightarrow> m
           | Some (w1, st1, d1) \<Rightarrow> m\<lparr>state := st1\<rparr>)"
| "step (Select_ticker_C now) m =
     (if cleanup_running m \<and> \<not> process_panicked m
      then m\<lparr>state := cleanupInactiveLimiters now (InactiveTTL (configuration m)) (state m)\<rparr> else m)"
| "step Select_ctx_Done m =
     (if cleanup_running m \<and> \<not> process_panicked m \<and> ctx_cancelled m
      then m\<lparr>cleanup_running := False\<rparr> else m)"

fun run :: "'d event list \<Rightarrow> middleware \<Rightarrow> middleware" where
  "run [] m = m"
| "run (e # es) m = run es (step e m)"

section \<open>Runs of the registry\<close>


text \<open>Accesses and ticks of the evictor, in the order they happen.\<close>

datatype access = Access string int64 rat | Tick int64

fun registry_run :: "RateLimiterConfig \<Rightarrow> access list \<Rightarrow> registry \<Rightarrow> registry" where
  "registry_run config [] st = st"
| "registry_run config (Access key now created # es) st =
     registry_run config es (snd (getLimiter config key now created st))"
| "registry_run config (Tick now # es) st =
     registry_run config es (cleanupInactiveLimiters now (InactiveTTL config) st)"

text \<open>
  The key is accessed often enough: at every tick, its last access is at most half the
  time-to-live old, and the clock reads a time not before 1970.
\<close>

fun accessed_every_half_ttl :: "int64 \<Rightarrow> string \<Rightarrow> int64 \<Rightarrow> access list \<Rightarrow> bool" where
  "accessed_every_half_ttl ttl key seen [] = True"
| "accessed_every_half_ttl ttl key seen (Access k now created # es) =
     accessed_every_half_ttl ttl key (if k = key then now else seen) es"
| "accessed_every_half_ttl ttl key seen (Tick now # es) =
     (0 \<le> sint now \<and> sint now - sint seen \<le> sint ttl div 2 \<and> accessed_every_half_ttl ttl key seen es)"

text \<open>The state of a bucket that the calls keep: the tokens within bounds, the rate not negative.\<close>

definition bucket_ok :: "TokenBucket \<Rightarrow> bool" where
  "bucket_ok b \<longleftrightarrow> 0 \<le> tokens b \<and> tokens b \<le> capacity b \<and> 0 \<le> refillRatePerSecond b"

section \<open>Concurrent calls of getLimiter\<close>

text \<open>
  A call of \<^verbatim>\<open>getLimiter\<close> holds the read lock, releases it, and when it found
  nothing takes the write lock. Other calls can run between the two sections, not within
  one: the write lock excludes everything, and under the read lock a call only reads the
  map and stores one timestamp atomically. A call is therefore in one of three phases.
\<close>

datatype call_phase = Not_started | Waiting_for_Lock | Returned nat

text \<open>
  The next section of a call in the given phase; \<open>now\<close> was read when the call began.
\<close>

fun getLimiter_section ::
  "RateLimiterConfig \<Rightarrow> string \<Rightarrow> int64 \<Rightarrow> rat \<Rightarrow> call_phase \<Rightarrow> registry \<Rightarrow> call_phase \<times> registry" where
  "getLimiter_section config key now created Not_started st =
     (case getLimiter_RLock key now st of
        (Some l, st1) \<Rightarrow> (Returned l, st1)
      | (None, st1) \<Rightarrow> (Waiting_for_Lock, st1))"
| "getLimiter_section config key now created Waiting_for_Lock st =
     (let (l, st1) = getLimiter_Lock config key now created st in (Returned l, st1))"
| "getLimiter_section config key now created (Returned l) st = (Returned l, st)"




section \<open>Example inputs\<close>

text \<open>
  A request from the peer 192.0.2.7 with the given header lines, a response writer nobody
  has written to, and a downstream handler that counts its calls.
\<close>

definition example_request :: "(string \<times> string list) list \<Rightarrow> request" where
  "example_request lines =
     \<lparr>Header = map_of lines, RemoteAddr = ''192.0.2.7:5123'', ctx_RealIP = None\<rparr>"

definition fresh_writer :: responseWriter where
  "fresh_writer = \<lparr>header = Map.empty, status = None, body = []\<rparr>"

definition counting_handler :: "responseWriter \<Rightarrow> request \<Rightarrow> nat \<Rightarrow> responseWriter \<times> nat" where
  "counting_handler w r n = (w, n + 1)"

text \<open>
  Registries: an empty one; one whose only bucket has no token left at instant 5; one with
  two clients, the first last seen at 100 ns, the second at 1000 ns.
\<close>

definition empty_registry :: registry where
  "empty_registry = \<lparr>limiters = [], objects = []\<rparr>"

definition exhausted_registry :: registry where
  "exhausted_registry =
     \<lparr>limiters = [(''192.0.2.7'', \<lparr>limiter = 0, lastAccess = 0\<rparr>)],
      objects = [\<lparr>capacity = 20, refillRatePerSecond = 10, tokens = 0, lastRefill = 5\<rparr>]\<rparr>"

definition two_clients :: registry where
  "two_clients =
     \<lparr>limiters = [(''198.51.100.4'', \<lparr>limiter = 0, lastAccess = 100\<rparr>),
                  (''192.0.2.7'', \<lparr>limiter = 1, lastAccess = 1000\<rparr>)],
      objects = [NewLimiter 10 20 0, NewLimiter 10 20 0]\<rparr>"

text \<open>
  Ten minutes of accesses and ticks: 192.0.2.7 comes back every five minutes,
  198.51.100.4 never.
\<close>

definition idle_and_active :: "access list" where
  "idle_and_active =
     [Tick 300000000000, Access ''192.0.2.7'' 300000000001 300,
      Tick 600000000000, Access ''203.0.113.1'' 600000000000 600,
      Access ''192.0.2.7'' 600000000100 600, Tick 600000000500]"

text \<open>
  A configuration with rate 0 and burst -1, one with a cleanup interval of -1 ns, and the
  middleware that the constructor builds from the default configuration.
\<close>

definition invalid_config :: RateLimiterConfig where
  "invalid_config = (DefaultRateLimiterConfig host_before_port)\<lparr>RequestsPerSecond := 0, Burst := - 1\<rparr>"

definition negative_interval_config :: RateLimiterConfig where
  "negative_interval_config = (DefaultRateLimiterConfig host_before_port)\<lparr>CleanupInterval := - 1\<rparr>"

definition default_middleware :: middleware where
  "default_middleware =
     \<lparr>configuration = DefaultRateLimiterConfig host_before_port,
      state = \<lparr>limiters = [], objects = []\<rparr>, ctx_cancelled = False, cleanup_running = True,
      process_panicked = False\<rparr>"

section \<open>Properties of the token bucket\<close>



lemma Allow_fields:
  "lastRefill (snd (Allow now b)) = now"
  "capacity (snd (Allow now b)) = capacity b"
  "refillRatePerSecond (snd (Allow now b)) = refillRatePerSecond b"
  by (simp_all add: Allow_def refill_def Let_def)

lemma Allow_tokens:
  "tokens (snd (Allow now b)) =
     (let refilled = min (capacity b) (tokens b + (now - lastRefill b) * refillRatePerSecond b)
      in if 1 \<le> refilled then refilled - 1 else refilled)"
  "fst (Allow now b) \<longleftrightarrow>
     1 \<le> min (capacity b) (tokens b + (now - lastRefill b) * refillRatePerSecond b)"
  by (simp_all add: Allow_def refill_def Let_def)

lemma refill_tokens_le_capacity: "tokens (refill now b) \<le> capacity b"
  by (simp add: refill_def Let_def)

lemma refill_tokens_le:
  "tokens (refill now b) \<le> tokens b + (now - lastRefill b) * refillRatePerSecond b"
  by (simp add: refill_def Let_def)

lemma refill_tokens_ge:
  "c \<le> capacity b \<Longrightarrow> c \<le> tokens b + (now - lastRefill b) * refillRatePerSecond b \<Longrightarrow>
   c \<le> tokens (refill now b)"
  by (simp add: refill_def Let_def)

lemma Allow_refill:
  "fst (Allow now b) \<longleftrightarrow> 1 \<le> tokens (refill now b)"
  "tokens (snd (Allow now b)) =
     (if 1 \<le> tokens (refill now b) then tokens (refill now b) - 1 else tokens (refill now b))"
  by (simp_all add: Allow_def Let_def)

lemma Allow_bucket_ok:
  assumes "bucket_ok b" "lastRefill b \<le> now"
  shows "bucket_ok (snd (Allow now b))"
proof -
  have "0 \<le> (now - lastRefill b) * refillRatePerSecond b"
    using assms by (simp add: bucket_ok_def)
  then have "0 \<le> tokens b + (now - lastRefill b) * refillRatePerSecond b"
    using assms(1) by (simp add: bucket_ok_def)
  moreover have "0 \<le> capacity b"
    using assms(1) by (simp add: bucket_ok_def)
  ultimately show ?thesis
    using assms(1) by (simp add: bucket_ok_def Allow_fields Allow_tokens Let_def min_def)
qed

lemma Allow_calls_Cons:
  "Allow_calls (t # ts) b =
     (fst (Allow t b) # fst (Allow_calls ts (snd (Allow t b))), snd (Allow_calls ts (snd (Allow t b))))"
  by (simp add: split_beta)

declare Allow_calls.simps(2) [simp del]

lemma Allow_calls_bucket_ok:
  "bucket_ok b \<Longrightarrow> sorted (lastRefill b # ts) \<Longrightarrow> bucket_ok (snd (Allow_calls ts b))"
proof (induction ts arbitrary: b)
  case Nil
  then show ?case by simp
next
  case (Cons t ts)
  have "bucket_ok (snd (Allow t b))"
    using Cons.prems by (intro Allow_bucket_ok) simp_all
  moreover have "sorted (lastRefill (snd (Allow t b)) # ts)"
    using Cons.prems by (simp add: Allow_fields)
  ultimately show ?case
    using Cons.IH by (simp add: Allow_calls_Cons)
qed

lemma Allow_calls_capacity:
  "capacity (snd (Allow_calls ts b)) = capacity b"
  by (induction ts arbitrary: b) (simp_all add: Allow_calls_Cons Allow_fields)

lemma Allow_calls_append:
  "Allow_calls (ts @ us) b =
     (fst (Allow_calls ts b) @ fst (Allow_calls us (snd (Allow_calls ts b))),
      snd (Allow_calls us (snd (Allow_calls ts b))))"
  by (induction ts arbitrary: b) (simp_all add: Allow_calls_Cons)

lemma Allow_calls_admit:
  assumes "sorted (lastRefill b # ts)" "0 \<le> refillRatePerSecond b"
    "of_nat (length ts) \<le> tokens b" "tokens b \<le> capacity b"
  shows "fst (Allow_calls ts b) = replicate (length ts) True \<and>
         tokens (snd (Allow_calls ts b)) \<le>
           tokens b - of_nat (length ts) +
           refillRatePerSecond b * (last (lastRefill b # ts) - lastRefill b) \<and>
         lastRefill (snd (Allow_calls ts b)) = last (lastRefill b # ts) \<and>
         refillRatePerSecond (snd (Allow_calls ts b)) = refillRatePerSecond b"
  using assms
proof (induction ts arbitrary: b)
  case Nil
  then show ?case by simp
next
  case (Cons t ts)
  let ?R = "refillRatePerSecond b"
  let ?b1 = "snd (Allow t b)"
  have el: "0 \<le> (t - lastRefill b) * ?R"
    using Cons.prems by simp
  have n: "1 + of_nat (length ts) \<le> tokens b"
    using Cons.prems(3) by simp
  have ge: "1 + of_nat (length ts) \<le> tokens (refill t b)"
    using n el Cons.prems(4) by (intro refill_tokens_ge) linarith+
  moreover have "0 \<le> (of_nat (length ts) :: rat)"
    by simp
  ultimately have one: "1 \<le> tokens (refill t b)"
    by linarith
  have ok: "fst (Allow t b)"
    using one by (simp add: Allow_refill)
  have tk: "tokens ?b1 = tokens (refill t b) - 1"
    using one by (simp add: Allow_refill)
  have 1: "sorted (lastRefill ?b1 # ts)"
    using Cons.prems(1) by (simp add: Allow_fields)
  have 2: "0 \<le> refillRatePerSecond ?b1"
    using Cons.prems(2) by (simp add: Allow_fields)
  have 3: "of_nat (length ts) \<le> tokens ?b1"
    using ge tk by linarith
  have 4: "tokens ?b1 \<le> capacity ?b1"
    using tk refill_tokens_le_capacity [of t b] by (simp add: Allow_fields)
  note IH = Cons.IH [OF 1 2 3 4]
  have up: "tokens ?b1 \<le> tokens b - 1 + ?R * (t - lastRefill b)"
    using tk refill_tokens_le [of t b] by (simp add: mult.commute)
  have "tokens (snd (Allow_calls ts ?b1)) \<le>
        tokens ?b1 - of_nat (length ts) + ?R * (last (t # ts) - t)"
    using IH by (simp add: Allow_fields)
  also have "\<dots> \<le> tokens b - 1 + ?R * (t - lastRefill b) - of_nat (length ts) + ?R * (last (t # ts) - t)"
    using up by simp
  also have "\<dots> = tokens b - of_nat (length (t # ts)) + ?R * (last (lastRefill b # t # ts) - lastRefill b)"
    by (simp add: algebra_simps)
  finally show ?case
    using IH ok by (simp add: Allow_calls_Cons Allow_fields)
qed

lemma Allow_calls_reject:
  assumes "sorted (lastRefill b # ts)" "0 \<le> refillRatePerSecond b"
    "tokens b + refillRatePerSecond b * (last (lastRefill b # ts) - lastRefill b) < 1"
  shows "fst (Allow_calls ts b) = replicate (length ts) False"
  using assms
proof (induction ts arbitrary: b)
  case Nil
  then show ?case by simp
next
  case (Cons t ts)
  let ?R = "refillRatePerSecond b"
  let ?x = "tokens b + (t - lastRefill b) * ?R"
  let ?b1 = "snd (Allow t b)"
  have "last (t # ts) \<in> set (t # ts)"
    by (rule last_in_set) simp
  then have le: "t \<le> last (t # ts)"
    using Cons.prems(1) by (auto simp del: last.simps)
  have "?R * (t - lastRefill b) \<le> ?R * (last (t # ts) - lastRefill b)"
    using le Cons.prems(2) by (intro mult_left_mono) simp_all
  then have x: "?x < 1"
    using Cons.prems(3) by (simp add: mult.commute)
  then have lt: "\<not> 1 \<le> tokens (refill t b)"
    using refill_tokens_le [of t b] by linarith
  have no: "\<not> fst (Allow t b)"
    using lt by (simp add: Allow_refill)
  have tk: "tokens ?b1 = tokens (refill t b)"
    using lt by (simp add: Allow_refill)
  have 1: "sorted (lastRefill ?b1 # ts)"
    using Cons.prems(1) by (simp add: Allow_fields)
  have 2: "0 \<le> refillRatePerSecond ?b1"
    using Cons.prems(2) by (simp add: Allow_fields)
  have "tokens ?b1 + ?R * (last (t # ts) - t) \<le> ?x + ?R * (last (t # ts) - t)"
    using tk refill_tokens_le [of t b] by simp
  also have "\<dots> = tokens b + ?R * (last (lastRefill b # t # ts) - lastRefill b)"
    by (simp add: algebra_simps)
  finally have 3: "tokens ?b1 + refillRatePerSecond ?b1 * (last (lastRefill ?b1 # ts) - lastRefill ?b1) < 1"
    using Cons.prems(3) by (simp add: Allow_fields)
  from Cons.IH [OF 1 2 3] no show ?case
    by (simp add: Allow_calls_Cons)
qed


lemma sorted_last_Cons:
  assumes "sorted (xs @ ys)" "xs \<noteq> []"
  shows "sorted (last xs # ys)"
proof -
  have "last xs \<in> set xs" using assms(2) by (rule last_in_set)
  then show ?thesis using assms(1) by (simp add: sorted_append)
qed

lemma Allow_first_call:
  assumes "0 \<le> r" "0 \<le> elapsed" "1 \<le> b"
  shows "Allow (created + elapsed) (NewLimiter r b created) =
           (True, (NewLimiter r b created)\<lparr>tokens := of_int b - 1, lastRefill := created + elapsed\<rparr>)"
proof -
  have "0 \<le> elapsed * r" using assms by simp
  then show ?thesis
    using assms(3) by (simp add: Allow_def refill_def NewLimiter_def Let_def min_def)
qed

text \<open>
  C2. Every call of \<^verbatim>\<open>Allow()\<close>, on every bucket, first refills: the tokens become
  min(C, tokens + elapsed * R) with elapsed = now - lastRefill, and lastRefill becomes
  now. Then, when there is at least one token, it takes one and admits; otherwise it
  rejects and leaves the refilled bucket.
\<close>

theorem Allow_refills_then_decides:
  "refill now b =
     b\<lparr>tokens := min (capacity b) (tokens b + (now - lastRefill b) * refillRatePerSecond b),
       lastRefill := now\<rparr> \<and>
   Allow now b =
     (if 1 \<le> tokens (refill now b)
      then (True, (refill now b)\<lparr>tokens := tokens (refill now b) - 1\<rparr>)
      else (False, refill now b))"
  by (simp add: Allow_def refill_def Let_def)

lemma Allow_tokens_le_capacity: "tokens (snd (Allow now b)) \<le> capacity b"
  using refill_tokens_le_capacity [of now b] by (simp add: Allow_refill)

lemma Allow_calls_tokens_le_capacity:
  "tokens b \<le> capacity b \<Longrightarrow> tokens (snd (Allow_calls ts b)) \<le> capacity b"
proof (induction ts arbitrary: b)
  case Nil
  then show ?case by simp
next
  case (Cons t ts)
  have "tokens (snd (Allow t b)) \<le> capacity (snd (Allow t b))"
    using Allow_tokens_le_capacity [of t b] by (simp add: Allow_fields)
  from Cons.IH [OF this] show ?case
    by (simp add: Allow_calls_Cons Allow_fields)
qed

text \<open>
  C5, as stated: every bucket has between 0 and its capacity tokens wherever it is
  observed. It has not: the constructor validates nothing, and the bucket that
  \<^verbatim>\<open>getLimiter\<close> builds from the configuration with burst -1 starts with -1 tokens;
  and a bucket with burst 5 and rate -1 per second has -5 tokens after a call ten
  seconds later.
\<close>

theorem tokens_within_capacity_counterexample:
  "\<not> (\<forall>bucket \<in> set (objects (snd (getLimiter invalid_config ''192.0.2.7'' 9 5 empty_registry))).
         0 \<le> tokens bucket \<and> tokens bucket \<le> capacity bucket) \<and>
   \<not> (0 \<le> tokens (snd (Allow_calls [10] (NewLimiter (- 1) 5 0))) \<and>
       tokens (snd (Allow_calls [10] (NewLimiter (- 1) 5 0))) \<le>
         capacity (snd (Allow_calls [10] (NewLimiter (- 1) 5 0))))"
proof (rule conjI)
  have "objects (snd (getLimiter invalid_config ''192.0.2.7'' 9 5 empty_registry)) =
      [\<lparr>capacity = - 1, refillRatePerSecond = 0, tokens = - 1, lastRefill = 5\<rparr>]"
    by (simp add: getLimiter_def getLimiter_RLock_def getLimiter_Lock_def empty_registry_def
        invalid_config_def NewLimiter_def)
  then show "\<not> (\<forall>bucket \<in> set (objects (snd (getLimiter invalid_config ''192.0.2.7'' 9 5 empty_registry))).
         0 \<le> tokens bucket \<and> tokens bucket \<le> capacity bucket)"
    by simp
next
  have "tokens (snd (Allow_calls [10] (NewLimiter (- 1) 5 0))) = - 5"
    by (simp add: Allow_calls_Cons Allow_def refill_def NewLimiter_def)
  then show "\<not> (0 \<le> tokens (snd (Allow_calls [10] (NewLimiter (- 1) 5 0))) \<and>
       tokens (snd (Allow_calls [10] (NewLimiter (- 1) 5 0))) \<le>
         capacity (snd (Allow_calls [10] (NewLimiter (- 1) 5 0))))"
    by simp
qed

text \<open>
  C5, amended. Every bucket, whatever its rate and burst and whenever it is called, has
  at most its capacity tokens after every call, that is at every point where it can be
  observed (the empty list of calls is the bucket as made); and whatever time has passed,
  the refill that opens a call leaves at most the capacity to be consumed, not
  elapsed * rate. A bucket made with a rate and a burst that are not negative, and called
  at instants that do not go back, never has fewer than 0 tokens either.
\<close>

theorem tokens_within_capacity:
  "tokens (snd (Allow_calls ts (NewLimiter r b created))) \<le> of_int b \<and>
   capacity (snd (Allow_calls ts (NewLimiter r b created))) = of_int b \<and>
   tokens (refill now (snd (Allow_calls ts (NewLimiter r b created)))) \<le> of_int b \<and>
   (0 \<le> r \<and> 0 \<le> b \<and> sorted (created # ts) \<longrightarrow>
      0 \<le> tokens (snd (Allow_calls ts (NewLimiter r b created))))"
proof -
  let ?b = "NewLimiter r b created"
  have c: "capacity (snd (Allow_calls ts ?b)) = of_int b"
    by (simp add: Allow_calls_capacity NewLimiter_def)
  have "tokens ?b \<le> capacity ?b"
    by (simp add: NewLimiter_def)
  then have "tokens (snd (Allow_calls ts ?b)) \<le> capacity ?b"
    by (rule Allow_calls_tokens_le_capacity)
  then have upper: "tokens (snd (Allow_calls ts ?b)) \<le> of_int b"
    by (simp add: NewLimiter_def)
  have cap: "tokens (refill now (snd (Allow_calls ts ?b))) \<le> of_int b"
    using refill_tokens_le_capacity [of now "snd (Allow_calls ts ?b)"] c by simp
  have lower: "0 \<le> tokens (snd (Allow_calls ts ?b))"
    if h: "0 \<le> r \<and> 0 \<le> b \<and> sorted (created # ts)"
  proof -
    have ok: "bucket_ok ?b"
      using h by (simp add: bucket_ok_def NewLimiter_def)
    have "sorted (lastRefill ?b # ts)"
      using h by (simp add: NewLimiter_def)
    with ok have "bucket_ok (snd (Allow_calls ts ?b))"
      by (rule Allow_calls_bucket_ok)
    then show ?thesis
      by (simp add: bucket_ok_def)
  qed
  show ?thesis
    using upper c cap lower by blast
qed

text \<open>
  The example of the cap: capacity 20, rate 10 per second, idle for 100 seconds. The call
  finds 20 tokens, not 1000, admits and leaves 19.
\<close>

theorem tokens_within_capacity_witness:
  "(0::rat) \<le> 10 \<and> (0::int) \<le> 20 \<and> sorted [0::rat, 100] \<and>
   tokens (refill 100 (NewLimiter 10 20 0)) = 20 \<and>
   fst (Allow_calls [100] (NewLimiter 10 20 0)) = [True] \<and>
   tokens (snd (Allow_calls [100] (NewLimiter 10 20 0))) = 19 \<and>
   tokens (snd (Allow_calls [100] (NewLimiter 10 20 0))) \<le> 20 \<and>
   0 \<le> tokens (snd (Allow_calls [100] (NewLimiter 10 20 0)))"
proof -
  have h: "(0::rat) \<le> 10 \<and> (0::int) \<le> 20 \<and> sorted [0::rat, 100]"
    by simp
  note inst = tokens_within_capacity [where ts = "[100]" and r = 10 and b = 20 and created = 0 and now = 100]
  have lower: "0 \<le> tokens (snd (Allow_calls [100] (NewLimiter 10 20 0)))"
    using inst [THEN conjunct2, THEN conjunct2, THEN conjunct2, THEN mp, OF h] .
  have upper: "tokens (snd (Allow_calls [100] (NewLimiter 10 20 0))) \<le> 20"
    using inst [THEN conjunct1] by simp
  have e: "tokens (refill 100 (NewLimiter 10 20 0)) = 20"
    "fst (Allow_calls [100] (NewLimiter 10 20 0)) = [True]"
    "tokens (snd (Allow_calls [100] (NewLimiter 10 20 0))) = 19"
    by (simp_all add: Allow_calls_Cons Allow_def refill_def NewLimiter_def)
  show ?thesis
    using h e lower upper by simp
qed

text \<open>
  C6. With the default rate of 10 requests per second and burst of 20, 25 calls of
  \<^verbatim>\<open>Allow()\<close> in a row on the bucket of one key give 20 admissions, then 5
  rejections. "In a row" is: at instants that do not go back, none before the bucket was
  made, the last less than a tenth of a second (the time of one token) after the first.
\<close>

theorem burst_of_25:
  assumes "length ts = 25" "sorted (created # ts)" "10 * (last ts - hd ts) < 1"
  shows "fst (Allow_calls ts
            (NewLimiter (RequestsPerSecond (DefaultRateLimiterConfig shp))
                        (Burst (DefaultRateLimiterConfig shp)) created)) =
         replicate 20 True @ replicate 5 False"
proof -
  obtain t us where ts: "ts = t # us" and lus: "length us = 24"
    using assms(1) by (cases ts) auto
  define vs ws where "vs = take 19 us" and "ws = drop 19 us"
  have us: "us = vs @ ws" and lvs: "length vs = 19" and lws: "length ws = 5"
    using lus by (simp_all add: vs_def ws_def)
  let ?b0 = "NewLimiter 10 20 created"
  let ?b1 = "?b0\<lparr>tokens := 19, lastRefill := t\<rparr>"
  have "created \<le> t" using assms(2) ts by simp
  then have first: "Allow t ?b0 = (True, ?b1)"
    using Allow_first_call [of 10 "t - created" 20 created] by simp
  have sorted_us: "sorted (t # vs @ ws)"
    using assms(2) ts us by simp
  have 1: "sorted (lastRefill ?b1 # vs)"
    using sorted_us by (simp add: sorted_append)
  have adm: "fst (Allow_calls vs ?b1) = replicate 19 True"
    and tk: "tokens (snd (Allow_calls vs ?b1)) \<le> 10 * (last (t # vs) - t)"
    and lr: "lastRefill (snd (Allow_calls vs ?b1)) = last (t # vs)"
    and rr: "refillRatePerSecond (snd (Allow_calls vs ?b1)) = 10"
    using Allow_calls_admit [OF 1] lvs by (simp_all add: NewLimiter_def)
  let ?b2 = "snd (Allow_calls vs ?b1)"
  have ws_ne: "ws \<noteq> []" using lws by auto
  have last_ts: "last ts = last ws"
    using ts us ws_ne by simp
  have 2: "sorted (lastRefill ?b2 # ws)"
    using sorted_last_Cons [of "t # vs" ws] sorted_us lr by simp
  have "tokens ?b2 + 10 * (last (last (t # vs) # ws) - last (t # vs)) \<le> 10 * (last ws - t)"
    using tk ws_ne by simp
  also have "\<dots> < 1"
    using assms(3) ts last_ts by simp
  finally have 3: "tokens ?b2 + refillRatePerSecond ?b2 * (last (lastRefill ?b2 # ws) - lastRefill ?b2) < 1"
    by (simp add: lr rr)
  have rej: "fst (Allow_calls ws ?b2) = replicate 5 False"
    using Allow_calls_reject [OF 2 _ 3] lws rr by simp
  have "fst (Allow_calls ts ?b0) = True # replicate 19 True @ replicate 5 False"
    by (simp add: ts us Allow_calls_Cons first Allow_calls_append adm rej)
  also have "\<dots> = replicate 20 True @ replicate 5 False"
    by (simp add: numeral_eq_Suc)
  finally show ?thesis
    by (simp add: DefaultRateLimiterConfig_def)
qed

text \<open>Example: the 25 calls at the instant the bucket is made.\<close>

theorem burst_of_25_witness:
  "length (replicate 25 (7::rat)) = 25 \<and> sorted (7 # replicate 25 (7::rat)) \<and>
   10 * (last (replicate 25 (7::rat)) - hd (replicate 25 7)) < 1 \<and>
   fst (Allow_calls (replicate 25 7)
          (NewLimiter (RequestsPerSecond (DefaultRateLimiterConfig id))
                      (Burst (DefaultRateLimiterConfig id)) 7)) =
     replicate 20 True @ replicate 5 False"
proof -
  have 1: "length (replicate 25 (7::rat)) = 25" by simp
  have 2: "sorted (7 # replicate 25 (7::rat))" by (simp add: sorted_replicate)
  have 3: "10 * (last (replicate 25 (7::rat)) - hd (replicate 25 7)) < 1" 
    by (simp add: numeral_eq_Suc)
  show ?thesis
    using burst_of_25 [OF 1 2 3, of id] 1 2 3 by blast
qed

section \<open>Properties of getLimiter\<close>

lemma getLimiter_present:
  "map_of (limiters st) key = Some e \<Longrightarrow>
   getLimiter config key now created st =
     (limiter e, st\<lparr>limiters := AList.update key (e\<lparr>lastAccess := now\<rparr>) (limiters st)\<rparr>)"
  by (simp add: getLimiter_def getLimiter_RLock_def)

lemma getLimiter_absent:
  "map_of (limiters st) key = None \<Longrightarrow>
   getLimiter config key now created st =
     (length (objects st),
      st\<lparr>objects := objects st @ [NewLimiter (RequestsPerSecond config) (Burst config) created],
         limiters := AList.update key \<lparr>limiter = length (objects st), lastAccess = now\<rparr> (limiters st)\<rparr>)"
  by (simp add: getLimiter_def getLimiter_RLock_def getLimiter_Lock_def Let_def)

lemma getLimiter_other:
  "k \<noteq> key \<Longrightarrow>
   map_of (limiters (snd (getLimiter config key now created st))) k = map_of (limiters st) k"
  by (cases "map_of (limiters st) key")
     (simp_all add: getLimiter_present getLimiter_absent update_conv')








lemma getLimiter_sections:
  "getLimiter_section config key now created
     (fst (getLimiter_section config key now created Not_started st))
     (snd (getLimiter_section config key now created Not_started st)) =
   (Returned (fst (getLimiter config key now created st)), snd (getLimiter config key now created st))"
  by (cases "map_of (limiters st) key")
     (simp_all add: getLimiter_def getLimiter_RLock_def split_beta)



section \<open>Properties of the cleanup\<close>

lemma map_of_cleanup_range:
  "map_of (cleanup_range keys cutoff m) k =
     (case map_of m k of
        None \<Rightarrow> None
      | Some e \<Rightarrow> if k \<in> set keys \<and> lastAccess e <s cutoff then None else Some e)"
proof (induction keys arbitrary: m)
  case Nil
  then show ?case by (simp split: option.splits)
next
  case (Cons key keys)
  show ?case
  proof (cases "map_of m key")
    case None
    then show ?thesis using Cons.IH [of m] by (auto split: option.splits)
  next
    case (Some entry)
    show ?thesis
    proof (cases "lastAccess entry <s cutoff")
      case True
      then show ?thesis
        using Some Cons.IH [of "AList.delete key m"]
        by (auto simp: delete_conv' split: option.splits)
    next
      case False
      then show ?thesis using Some Cons.IH [of m] by (auto split: option.splits)
    qed
  qed
qed

lemma map_of_cleanupInactiveLimiters:
  "map_of (limiters (cleanupInactiveLimiters now ttl st)) k =
     (case map_of (limiters st) k of
        None \<Rightarrow> None
      | Some e \<Rightarrow> if lastAccess e <s now - ttl then None else Some e)"
proof -
  have "map_of (limiters st) k = Some e \<Longrightarrow> k \<in> set (map fst (limiters st))" for e
    by (metis map_of_eq_None_iff option.distinct(1) set_map)
  then show ?thesis
    by (auto simp: cleanupInactiveLimiters_def Let_def map_of_cleanup_range split: option.splits)
qed

lemma objects_cleanupInactiveLimiters:
  "objects (cleanupInactiveLimiters now ttl st) = objects st"
  by (simp add: cleanupInactiveLimiters_def Let_def)

lemma sint_cutoff:
  assumes "0 \<le> sint now" "0 \<le> sint ttl"
  shows "sint (now - ttl :: 64 word) = sint now - sint ttl"
proof -
  have "sint now < 2 ^ 63" "sint ttl < 2 ^ 63"
    using sint_lt [of now] sint_lt [of ttl] by simp_all
  then show ?thesis
    using assms by (simp add: sint_word_ariths signed_take_bit_int_eq_self)
qed

lemma accessed_every_half_ttl_take:
  "accessed_every_half_ttl ttl key seen es \<Longrightarrow> accessed_every_half_ttl ttl key seen (take n es)"
proof (induction es arbitrary: n seen)
  case Nil
  then show ?case by simp
next
  case (Cons ev es)
  show ?case
  proof (cases n)
    case 0
    then show ?thesis by simp
  next
    case (Suc m)
    with Cons show ?thesis by (cases ev) simp_all
  qed
qed

lemma cleanup_keeps_fresh:
  assumes "map_of (limiters st) key = Some e" "0 \<le> sint now" "0 \<le> sint ttl"
    "sint now - sint (lastAccess e) \<le> sint ttl"
  shows "map_of (limiters (cleanupInactiveLimiters now ttl st)) key = Some e"
proof -
  have "\<not> lastAccess e <s now - ttl"
    using assms by (simp add: word_sless_alt sint_cutoff)
  then show ?thesis
    using assms(1) by (simp add: map_of_cleanupInactiveLimiters)
qed

lemma cleanup_drops_stale:
  assumes "map_of (limiters st) key = Some e" "0 \<le> sint now" "0 \<le> sint ttl"
    "sint ttl < sint now - sint (lastAccess e)"
  shows "map_of (limiters (cleanupInactiveLimiters now ttl st)) key = None"
proof -
  have "lastAccess e <s now - ttl"
    using assms by (simp add: word_sless_alt sint_cutoff)
  then show ?thesis
    using assms(1) by (simp add: map_of_cleanupInactiveLimiters)
qed

lemma registry_run_survives:
  assumes "0 \<le> sint (InactiveTTL config)"
  shows "map_of (limiters st) key = Some e \<Longrightarrow>
         accessed_every_half_ttl (InactiveTTL config) key (lastAccess e) es \<Longrightarrow>
         \<exists>e'. map_of (limiters (registry_run config es st)) key = Some e' \<and> limiter e' = limiter e"
proof (induction es arbitrary: st e)
  case Nil
  then show ?case by simp
next
  case (Cons ev es)
  show ?case
  proof (cases ev)
    case (Access k now created)
    show ?thesis
    proof (cases "k = key")
      case True
      let ?st1 = "snd (getLimiter config key now created st)"
      have "map_of (limiters ?st1) key = Some (e\<lparr>lastAccess := now\<rparr>)"
        using Cons.prems(1) by (simp add: getLimiter_present update_conv')
      moreover have "accessed_every_half_ttl (InactiveTTL config) key (lastAccess (e\<lparr>lastAccess := now\<rparr>)) es"
        using Cons.prems(2) Access True by simp
      ultimately show ?thesis
        using Cons.IH [of ?st1 "e\<lparr>lastAccess := now\<rparr>"] Access True by simp
    next
      case False
      let ?st1 = "snd (getLimiter config k now created st)"
      have "map_of (limiters ?st1) key = Some e"
        using Cons.prems(1) False by (simp add: getLimiter_other)
      moreover have "accessed_every_half_ttl (InactiveTTL config) key (lastAccess e) es"
        using Cons.prems(2) Access False by simp
      ultimately show ?thesis
        using Cons.IH [of ?st1 e] Access by simp
    qed
  next
    case (Tick now)
    let ?ttl = "InactiveTTL config"
    let ?st1 = "cleanupInactiveLimiters now ?ttl st"
    have t: "0 \<le> sint now" "sint now - sint (lastAccess e) \<le> sint ?ttl div 2"
      and rest: "accessed_every_half_ttl ?ttl key (lastAccess e) es"
      using Cons.prems(2) Tick by simp_all
    have "sint ?ttl div 2 \<le> sint ?ttl"
      using assms by simp
    then have "sint now - sint (lastAccess e) \<le> sint ?ttl"
      using t(2) by linarith
    then have "map_of (limiters ?st1) key = Some e"
      using Cons.prems(1) t(1) assms by (intro cleanup_keeps_fresh)
    then show ?thesis
      using Cons.IH [of ?st1 e] rest Tick by simp
  qed
qed

text \<open>
  C3. A tick computes cutoff = now - ttl (in int64) and removes exactly the entries
  whose lastAccess is below it: the map afterwards has no such entry and still has every
  other one. Hence, for a time-to-live that is not negative and a clock not before 1970:
  an entry not accessed for the time-to-live and any positive margin is gone after the
  tick, an entry accessed within the time-to-live stays, and an entry accessed at least
  every half time-to-live is there after every tick of a run, with the limiter it had.
\<close>

theorem cleanup_removes_exactly_the_stale:
  "map_of (limiters (cleanupInactiveLimiters now ttl st)) key =
     (case map_of (limiters st) key of
        None \<Rightarrow> None
      | Some e \<Rightarrow> if lastAccess e <s now - ttl then None else Some e) \<and>
   (0 \<le> sint now \<and> 0 \<le> sint ttl \<longrightarrow>
      (\<forall>e. map_of (limiters st) key = Some e \<and> sint ttl < sint now - sint (lastAccess e) \<longrightarrow>
           map_of (limiters (cleanupInactiveLimiters now ttl st)) key = None) \<and>
      (\<forall>e. map_of (limiters st) key = Some e \<and> sint now - sint (lastAccess e) \<le> sint ttl \<longrightarrow>
           map_of (limiters (cleanupInactiveLimiters now ttl st)) key = Some e)) \<and>
   (0 \<le> sint (InactiveTTL config) \<longrightarrow>
      (\<forall>e es. map_of (limiters st) key = Some e \<and>
              accessed_every_half_ttl (InactiveTTL config) key (lastAccess e) es \<longrightarrow>
              (\<forall>n. \<exists>e'. map_of (limiters (registry_run config (take n es) st)) key = Some e' \<and>
                         limiter e' = limiter e)))"
proof (intro conjI impI allI)
  show "map_of (limiters (cleanupInactiveLimiters now ttl st)) key =
     (case map_of (limiters st) key of
        None \<Rightarrow> None
      | Some e \<Rightarrow> if lastAccess e <s now - ttl then None else Some e)"
    by (rule map_of_cleanupInactiveLimiters)
next
  fix e
  assume "0 \<le> sint now \<and> 0 \<le> sint ttl"
    and "map_of (limiters st) key = Some e \<and> sint ttl < sint now - sint (lastAccess e)"
  then show "map_of (limiters (cleanupInactiveLimiters now ttl st)) key = None"
    by (intro cleanup_drops_stale [of st key e]) simp_all
next
  fix e
  assume "0 \<le> sint now \<and> 0 \<le> sint ttl"
    and "map_of (limiters st) key = Some e \<and> sint now - sint (lastAccess e) \<le> sint ttl"
  then show "map_of (limiters (cleanupInactiveLimiters now ttl st)) key = Some e"
    by (intro cleanup_keeps_fresh) simp_all
next
  fix e es n
  assume ttl: "0 \<le> sint (InactiveTTL config)"
    and "map_of (limiters st) key = Some e \<and>
         accessed_every_half_ttl (InactiveTTL config) key (lastAccess e) es"
  then have "map_of (limiters st) key = Some e"
    and "accessed_every_half_ttl (InactiveTTL config) key (lastAccess e) (take n es)"
    by (simp_all add: accessed_every_half_ttl_take)
  then show "\<exists>e'. map_of (limiters (registry_run config (take n es) st)) key = Some e' \<and>
                  limiter e' = limiter e"
    by (rule registry_run_survives [OF ttl])
qed

text \<open>
  Example: a tick 10 minutes and 500 ns after the epoch, with the default time-to-live
  of 10 minutes, removes the client last seen at 100 ns and keeps the one seen at 1000 ns;
  over the ten minutes of the example run the returning client survives three ticks.
\<close>

theorem cleanup_removes_exactly_the_stale_witness:
  "0 \<le> sint (600000000500 :: int64) \<and> 0 \<le> sint (600000000000 :: int64) \<and>
   map_of (limiters two_clients) ''198.51.100.4'' = Some \<lparr>limiter = 0, lastAccess = 100\<rparr> \<and>
   sint (600000000000 :: int64) < sint (600000000500 :: int64) - sint (100 :: int64) \<and>
   map_of (limiters (cleanupInactiveLimiters 600000000500 600000000000 two_clients)) ''198.51.100.4'' = None \<and>
   map_of (limiters two_clients) ''192.0.2.7'' = Some \<lparr>limiter = 1, lastAccess = 1000\<rparr> \<and>
   sint (600000000500 :: int64) - sint (1000 :: int64) \<le> sint (600000000000 :: int64) \<and>
   map_of (limiters (cleanupInactiveLimiters 600000000500 600000000000 two_clients)) ''192.0.2.7'' =
     Some \<lparr>limiter = 1, lastAccess = 1000\<rparr> \<and>
   0 \<le> sint (InactiveTTL (DefaultRateLimiterConfig host_before_port)) \<and>
   accessed_every_half_ttl (InactiveTTL (DefaultRateLimiterConfig host_before_port)) ''192.0.2.7'' 1000
     idle_and_active \<and>
   (\<exists>e. map_of (limiters (registry_run (DefaultRateLimiterConfig host_before_port) idle_and_active two_clients))
          ''192.0.2.7'' = Some e \<and> limiter e = 1) \<and>
   map_of (limiters (registry_run (DefaultRateLimiterConfig host_before_port) idle_and_active two_clients))
          ''198.51.100.4'' = None"
proof -
  let ?cfg = "DefaultRateLimiterConfig host_before_port"
  let ?old = "\<lparr>limiter = 0, lastAccess = 100 :: int64\<rparr>"
  let ?new = "\<lparr>limiter = 1, lastAccess = 1000 :: int64\<rparr>"
  have t: "0 \<le> sint (600000000500 :: int64) \<and> 0 \<le> sint (600000000000 :: int64)"
    by simp
  have t1: "sint (600000000000 :: int64) < sint (600000000500 :: int64) - sint (lastAccess ?old)"
    and t2: "sint (600000000500 :: int64) - sint (lastAccess ?new) \<le> sint (600000000000 :: int64)"
    by simp_all
  have a: "map_of (limiters two_clients) ''198.51.100.4'' = Some ?old"
    and b: "map_of (limiters two_clients) ''192.0.2.7'' = Some ?new"
    by (simp_all add: two_clients_def)
  have ttl: "InactiveTTL ?cfg = 600000000000"
    by (simp add: DefaultRateLimiterConfig_def)
  have ttl0: "0 \<le> sint (InactiveTTL ?cfg)"
    by (simp add: ttl)
  have "accessed_every_half_ttl 600000000000 ''192.0.2.7'' 1000 idle_and_active"
    by (simp add: idle_and_active_def)
  then have h: "accessed_every_half_ttl (InactiveTTL ?cfg) ''192.0.2.7'' (lastAccess ?new) idle_and_active"
    by (simp add: ttl)
  note stale = cleanup_removes_exactly_the_stale
      [of 600000000500 600000000000 two_clients "''198.51.100.4''" ?cfg]
  note fresh = cleanup_removes_exactly_the_stale
      [of 600000000500 600000000000 two_clients "''192.0.2.7''" ?cfg]
  have 1: "map_of (limiters (cleanupInactiveLimiters 600000000500 600000000000 two_clients)) ''198.51.100.4'' = None"
    using stale [THEN conjunct2, THEN conjunct1, THEN mp, OF t, THEN conjunct1, THEN spec, THEN mp,
        OF conjI [OF a t1]] .
  have 2: "map_of (limiters (cleanupInactiveLimiters 600000000500 600000000000 two_clients)) ''192.0.2.7'' =
     Some ?new"
    using fresh [THEN conjunct2, THEN conjunct1, THEN mp, OF t, THEN conjunct2, THEN spec, THEN mp,
        OF conjI [OF b t2]] .
  have "\<forall>n. \<exists>e. map_of (limiters (registry_run ?cfg (take n idle_and_active) two_clients)) ''192.0.2.7'' = Some e \<and>
            limiter e = limiter ?new"
    using fresh [THEN conjunct2, THEN conjunct2, THEN mp, OF ttl0, THEN spec, THEN spec, THEN mp,
        OF conjI [OF b h]] .
  then have "\<exists>e. map_of (limiters (registry_run ?cfg (take 6 idle_and_active) two_clients)) ''192.0.2.7'' = Some e \<and>
            limiter e = limiter ?new"
    by (rule spec)
  moreover have "take 6 idle_and_active = idle_and_active"
    by (simp add: idle_and_active_def)
  ultimately have 3: "\<exists>e. map_of (limiters (registry_run ?cfg idle_and_active two_clients)) ''192.0.2.7'' = Some e \<and>
            limiter e = 1"
    by simp
  have 4: "map_of (limiters (registry_run ?cfg idle_and_active two_clients)) ''198.51.100.4'' = None"
    by code_simp
  have t1': "sint (600000000000 :: int64) < sint (600000000500 :: int64) - sint (100 :: int64)"
    and t2': "sint (600000000500 :: int64) - sint (1000 :: int64) \<le> sint (600000000000 :: int64)"
    by simp_all
  have h': "accessed_every_half_ttl (InactiveTTL ?cfg) ''192.0.2.7'' 1000 idle_and_active"
    using h by simp
  show ?thesis
    by (intro conjI t [THEN conjunct1] t [THEN conjunct2] t1' t2' a b ttl0 h' 1 2 3 4)
qed

text \<open>
  C10. A cleanup pass changes no entry that survives it: an entry whose lastAccess is
  not below the cutoff is still there under its key, with the same limiter and the same
  lastAccess; every entry found afterwards was there before, unchanged; and no limiter
  object is touched.
\<close>

theorem cleanup_frame:
  "(\<forall>e. map_of (limiters st) key = Some e \<and> now - ttl \<le>s lastAccess e \<longrightarrow>
        map_of (limiters (cleanupInactiveLimiters now ttl st)) key = Some e) \<and>
   (\<forall>e. map_of (limiters (cleanupInactiveLimiters now ttl st)) key = Some e \<longrightarrow>
        map_of (limiters st) key = Some e) \<and>
   objects (cleanupInactiveLimiters now ttl st) = objects st"
proof (intro conjI allI impI)
  fix e
  assume "map_of (limiters st) key = Some e \<and> now - ttl \<le>s lastAccess e"
  then show "map_of (limiters (cleanupInactiveLimiters now ttl st)) key = Some e"
    by (simp add: map_of_cleanupInactiveLimiters word_sle_eq word_sless_alt)
next
  fix e
  assume "map_of (limiters (cleanupInactiveLimiters now ttl st)) key = Some e"
  then show "map_of (limiters st) key = Some e"
    by (simp add: map_of_cleanupInactiveLimiters split: option.splits if_splits)
next
  show "objects (cleanupInactiveLimiters now ttl st) = objects st"
    by (rule objects_cleanupInactiveLimiters)
qed

text \<open>
  Example: the pass of the previous example leaves the entry of 192.0.2.7, and both
  limiter objects, as they were.
\<close>

theorem cleanup_frame_witness:
  "map_of (limiters two_clients) ''192.0.2.7'' = Some \<lparr>limiter = 1, lastAccess = 1000\<rparr> \<and>
   (600000000500 :: int64) - 600000000000 \<le>s 1000 \<and>
   map_of (limiters (cleanupInactiveLimiters 600000000500 600000000000 two_clients)) ''192.0.2.7'' =
     Some \<lparr>limiter = 1, lastAccess = 1000\<rparr> \<and>
   objects (cleanupInactiveLimiters 600000000500 600000000000 two_clients) =
     [NewLimiter 10 20 0, NewLimiter 10 20 0] \<and>
   limiters (cleanupInactiveLimiters 600000000500 600000000000 two_clients) =
     [(''192.0.2.7'', \<lparr>limiter = 1, lastAccess = 1000\<rparr>)]"
proof -
  have b: "map_of (limiters two_clients) ''192.0.2.7'' = Some \<lparr>limiter = 1, lastAccess = 1000\<rparr>"
    by (simp add: two_clients_def)
  have c: "(600000000500 :: int64) - 600000000000 \<le>s 1000"
    by (simp add: word_sle_eq)
  then have c': "(600000000500 :: int64) - 600000000000 \<le>s lastAccess \<lparr>limiter = 1, lastAccess = 1000\<rparr>"
    by simp
  have 1: "map_of (limiters (cleanupInactiveLimiters 600000000500 600000000000 two_clients)) ''192.0.2.7'' =
     Some \<lparr>limiter = 1, lastAccess = 1000\<rparr> \<and>
     objects (cleanupInactiveLimiters 600000000500 600000000000 two_clients) = objects two_clients"
    using cleanup_frame [of two_clients "''192.0.2.7''" 600000000500 600000000000,
        THEN conjunct1, THEN spec, THEN mp, OF conjI [OF b c']]
      cleanup_frame [of two_clients "''192.0.2.7''" 600000000500 600000000000,
        THEN conjunct2, THEN conjunct2]
    by (rule conjI)
  have 2: "limiters (cleanupInactiveLimiters 600000000500 600000000000 two_clients) =
     [(''192.0.2.7'', \<lparr>limiter = 1, lastAccess = 1000\<rparr>)]"
    by (simp add: two_clients_def cleanupInactiveLimiters_def word_sless_alt)
  show ?thesis
    using b c 1 2 by (simp add: two_clients_def)
qed

section \<open>Properties of the key\<close>

lemma Split_from_first:
  "\<exists>rest. Split_from piece s sep = (rev piece @ takeWhile (\<lambda>c. c \<noteq> sep) s) # rest"
proof (induction s arbitrary: piece)
  case Nil
  then show ?case by simp
next
  case (Cons c s)
  show ?case
  proof (cases "c = sep")
    case True
    then show ?thesis by simp
  next
    case False
    then show ?thesis using Cons [of "c # piece"] by simp
  qed
qed

lemma Split_first: "\<exists>rest. Split s sep = takeWhile (\<lambda>c. c \<noteq> sep) s # rest"
  using Split_from_first [of "[]" s sep] by (simp add: Split_def)

text \<open>
  C4. The key of a request that enters with no address in its context, as the default
  \<^verbatim>\<open>KeyFunc\<close> computes it behind \<^verbatim>\<open>RealIP\<close>. A header is present when
  \<^verbatim>\<open>Header.Get\<close> gives a value that is not empty. When X-Forwarded-For is present the
  candidate is its first comma-separated entry, trimmed; else when X-Real-IP is present,
  that value trimmed. A candidate that is not empty and parses as an IP address is the
  key. In every other case the key is the peer's address: the host of
  \<^verbatim>\<open>RemoteAddr\<close>, or all of it when no host is found. The function has no failing
  branch. The second part says that the first entry of a split is what precedes the
  first separator.
\<close>

theorem rate_limit_key:
  "(ctx_RealIP r = None \<longrightarrow>
      RealIP TrimSpace ParseIP (\<lambda>w r1. KeyFunc (DefaultRateLimiterConfig SplitHostPort) r1) w r =
        (let xff = Header_Get (Header r) ''X-Forwarded-For'';
             xri = Header_Get (Header r) ''X-Real-IP'';
             candidate = (if xff \<noteq> [] then TrimSpace (takeWhile (\<lambda>c. c \<noteq> CHR '','') xff)
                          else if xri \<noteq> [] then TrimSpace xri
                          else []);
             host = SplitHostPort (RemoteAddr r);
             peer = (if host \<noteq> [] then host else RemoteAddr r)
         in if candidate \<noteq> [] \<and> ParseIP candidate \<noteq> None then candidate else peer)) \<and>
   (\<exists>rest. Split xff (CHR '','') = takeWhile (\<lambda>c. c \<noteq> CHR '','') xff # rest)"
proof (intro conjI impI)
  assume ctx: "ctx_RealIP r = None"
  obtain rest where "Split (Header_Get (Header r) ''X-Forwarded-For'') (CHR '','') =
      takeWhile (\<lambda>c. c \<noteq> CHR '','') (Header_Get (Header r) ''X-Forwarded-For'') # rest"
    using Split_first by blast
  then show "RealIP TrimSpace ParseIP (\<lambda>w r1. KeyFunc (DefaultRateLimiterConfig SplitHostPort) r1) w r =
        (let xff = Header_Get (Header r) ''X-Forwarded-For'';
             xri = Header_Get (Header r) ''X-Real-IP'';
             candidate = (if xff \<noteq> [] then TrimSpace (takeWhile (\<lambda>c. c \<noteq> CHR '','') xff)
                          else if xri \<noteq> [] then TrimSpace xri
                          else []);
             host = SplitHostPort (RemoteAddr r);
             peer = (if host \<noteq> [] then host else RemoteAddr r)
         in if candidate \<noteq> [] \<and> ParseIP candidate \<noteq> None then candidate else peer)"
    using ctx
    by (simp add: RealIP_def GetRealIP_def DefaultRateLimiterConfig_def Let_def)
next
  show "\<exists>rest. Split xff (CHR '','') = takeWhile (\<lambda>c. c \<noteq> CHR '','') xff # rest"
    by (rule Split_first)
qed

text \<open>
  Examples: a list of two addresses; a value that is no address, alone and next to a
  valid X-Real-IP, which is not consulted; an X-Real-IP alone, trimmed; and no header.
\<close>

theorem rate_limit_key_witness:
  "ctx_RealIP (example_request [(''X-Forwarded-For'', [''203.0.113.1, 10.0.0.1''])]) = None \<and>
   RealIP trim_ascii ipv4_literal (\<lambda>w r1. KeyFunc (DefaultRateLimiterConfig host_before_port) r1) fresh_writer
     (example_request [(''X-Forwarded-For'', [''203.0.113.1, 10.0.0.1''])]) = ''203.0.113.1'' \<and>
   RealIP trim_ascii ipv4_literal (\<lambda>w r1. KeyFunc (DefaultRateLimiterConfig host_before_port) r1) fresh_writer
     (example_request [(''X-Forwarded-For'', [''not-an-ip''])]) = ''192.0.2.7'' \<and>
   RealIP trim_ascii ipv4_literal (\<lambda>w r1. KeyFunc (DefaultRateLimiterConfig host_before_port) r1) fresh_writer
     (example_request [(''X-Forwarded-For'', [''not-an-ip'']), (''X-Real-IP'', [''198.51.100.4''])]) =
     ''192.0.2.7'' \<and>
   RealIP trim_ascii ipv4_literal (\<lambda>w r1. KeyFunc (DefaultRateLimiterConfig host_before_port) r1) fresh_writer
     (example_request [(''X-Real-IP'', ['' 198.51.100.4 ''])]) = ''198.51.100.4'' \<and>
   RealIP trim_ascii ipv4_literal (\<lambda>w r1. KeyFunc (DefaultRateLimiterConfig host_before_port) r1) fresh_writer
     (example_request []) = ''192.0.2.7''"
  using
    rate_limit_key [of "example_request [(''X-Forwarded-For'', [''203.0.113.1, 10.0.0.1''])]"
      trim_ascii ipv4_literal host_before_port fresh_writer]
    rate_limit_key [of "example_request [(''X-Forwarded-For'', [''not-an-ip''])]"
      trim_ascii ipv4_literal host_before_port fresh_writer]
    rate_limit_key [of "example_request [(''X-Forwarded-For'', [''not-an-ip'']), (''X-Real-IP'', [''198.51.100.4''])]"
      trim_ascii ipv4_literal host_before_port fresh_writer]
    rate_limit_key [of "example_request [(''X-Real-IP'', ['' 198.51.100.4 ''])]"
      trim_ascii ipv4_literal host_before_port fresh_writer]
    rate_limit_key [of "example_request []" trim_ascii ipv4_literal host_before_port fresh_writer]
  by (simp add: example_request_def Header_Get_def Let_def trim_ascii_def ascii_space_def
      ipv4_literal_def Split_def decimal_field_def host_before_port_def)

section \<open>Properties of the handler\<close>

lemma getLimiter_pointer_valid:
  assumes "pointers_valid st"
  shows "fst (getLimiter config key now created st) <
           length (objects (snd (getLimiter config key now created st)))"
proof (cases "map_of (limiters st) key")
  case None
  then show ?thesis by (simp add: getLimiter_absent)
next
  case (Some e)
  then have "(key, e) \<in> set (limiters st)"
    by (rule map_of_SomeD)
  then have "limiter e < length (objects st)"
    using assms by (auto simp: pointers_valid_def list_all_iff)
  then show ?thesis using Some by (simp add: getLimiter_present)
qed

lemma set_update_subset: "set (AList.update k v al) \<subseteq> insert (k, v) (set al)"
  by (induction al) auto

lemma getLimiter_pointers_valid:
  assumes "pointers_valid st"
  shows "pointers_valid (snd (getLimiter config key now created st))"
proof (cases "map_of (limiters st) key")
  case None
  show ?thesis
    using assms set_update_subset [of key "\<lparr>limiter = length (objects st), lastAccess = now\<rparr>" "limiters st"]
    by (fastforce simp: getLimiter_absent [OF None] pointers_valid_def list_all_iff)
next
  case (Some e)
  then have "(key, e) \<in> set (limiters st)"
    by (rule map_of_SomeD)
  then have "limiter e < length (objects st)"
    using assms by (auto simp: pointers_valid_def list_all_iff)
  then show ?thesis
    using assms set_update_subset [of key "e\<lparr>lastAccess := now\<rparr>" "limiters st"]
    by (fastforce simp: getLimiter_present [OF Some] pointers_valid_def list_all_iff)
qed

lemma limiter_Allow_Some:
  "l < length (objects st) \<Longrightarrow>
   limiter_Allow l t st =
     Some (fst (Allow t (objects st ! l)), st\<lparr>objects := (objects st)[l := snd (Allow t (objects st ! l))]\<rparr>)"
  by (simp add: limiter_Allow_def split_beta)

lemma limiter_Allow_pointers_valid:
  "pointers_valid st \<Longrightarrow> limiter_Allow l t st = Some (ok, st1) \<Longrightarrow> pointers_valid st1"
  by (auto simp: limiter_Allow_def pointers_valid_def split_beta split: if_splits)

lemma set_cleanup_range: "set (cleanup_range keys cutoff m) \<subseteq> set m"
proof (induction keys arbitrary: m)
  case Nil
  then show ?case by simp
next
  case (Cons key keys)
  have "set (AList.delete key m) \<subseteq> set m"
    by (auto simp: AList.delete_eq)
  then show ?case
    using Cons [of m] Cons [of "AList.delete key m"] by (auto split: option.splits)
qed

lemma cleanup_pointers_valid:
  "pointers_valid st \<Longrightarrow> pointers_valid (cleanupInactiveLimiters now ttl st)"
  using set_cleanup_range [of "map fst (limiters st)" "now - ttl" "limiters st"]
  by (auto simp: pointers_valid_def cleanupInactiveLimiters_def Let_def list_all_iff)

lemma sublist_code_in_body: \<open>sublist ''"code":"RATE_LIMITED"'' rate_limited_body\<close>
  unfolding rate_limited_body_def by code_simp

lemma RateLimiter_ServeHTTP_pointers_valid:
  assumes "pointers_valid st"
    "RateLimiter_ServeHTTP config next now created t w r st d = Some (w1, st1, d1)"
  shows "pointers_valid st1"
proof -
  let ?g = "getLimiter config (KeyFunc config r) now created st"
  have g: "pointers_valid (snd ?g)"
    using assms(1) by (rule getLimiter_pointers_valid)
  obtain ok st2 where a: "limiter_Allow (fst ?g) t (snd ?g) = Some (ok, st2)" and "st1 = st2"
    using assms(2)
    by (auto simp: RateLimiter_ServeHTTP_def Let_def split_beta split: option.splits if_splits)
  then show ?thesis
    using limiter_Allow_pointers_valid [OF g a] by simp
qed

lemma step_pointers_valid:
  "pointers_valid (state m) \<Longrightarrow> pointers_valid (state (step e m))"
proof (cases e)
  case (Serve nxt now created t w r d)
  assume "pointers_valid (state m)"
  then show ?thesis
    using Serve RateLimiter_ServeHTTP_pointers_valid [of "state m" "configuration m" nxt now created t w r d]
    by (auto split: option.splits)
next
  case (Select_ticker_C now)
  assume "pointers_valid (state m)"
  then show ?thesis
    using Select_ticker_C by (simp add: cleanup_pointers_valid)
next
  case Select_ctx_Done
  assume "pointers_valid (state m)"
  then show ?thesis
    using Select_ctx_Done by simp
qed

lemma run_pointers_valid:
  "pointers_valid (state m) \<Longrightarrow> pointers_valid (state (run es m))"
  by (induction es arbitrary: m) (simp_all add: step_pointers_valid)

lemma RateLimiter_pointers_valid:
  "RateLimiter config = Return m \<Longrightarrow> pointers_valid (state (run es m))"
proof -
  assume "RateLimiter config = Return m"
  then have "pointers_valid (state m)"
    by (auto simp: RateLimiter_def Let_def pointers_valid_def)
  then show ?thesis by (rule run_pointers_valid)
qed

text \<open>
  C7. For every request, on a registry whose pointers are valid and a response not yet
  written: the handler asks the limiter of the request's key. When \<^verbatim>\<open>Allow()\<close> is
  false the response gets the headers Content-Type and Retry-After: 1, the status 429
  and the body below, which contains "code":"RATE_LIMITED"; the downstream handler is
  not called, its state is as before. When \<^verbatim>\<open>Allow()\<close> is true the result is the
  downstream handler's, called once on the untouched response and the request.
\<close>

theorem RateLimiter_ServeHTTP_outcome:
  assumes "pointers_valid st" "status w = None"
  shows \<open>\<exists>l st1 ok st2.
     getLimiter config (KeyFunc config r) now created st = (l, st1) \<and>
     limiter_Allow l t st1 = Some (ok, st2) \<and>
     (if ok then
        RateLimiter_ServeHTTP config next now created t w r st d =
          Some (fst (next w r d), st2, snd (next w r d))
      else
        RateLimiter_ServeHTTP config next now created t w r st d =
          Some (w\<lparr>header := (header w)(''Content-Type'' \<mapsto> [''application/json''],
                                       ''Retry-After'' \<mapsto> [''1'']),
                  status := Some 429,
                  body := body w @ rate_limited_body\<rparr>, st2, d)) \<and>
     sublist ''"code":"RATE_LIMITED"'' rate_limited_body\<close>
proof -
  let ?g = "getLimiter config (KeyFunc config r) now created st"
  have v: "fst ?g < length (objects (snd ?g))"
    using assms(1) by (rule getLimiter_pointer_valid)
  let ?a = "Allow t (objects (snd ?g) ! fst ?g)"
  let ?st2 = "(snd ?g)\<lparr>objects := (objects (snd ?g))[fst ?g := snd ?a]\<rparr>"
  have a: "limiter_Allow (fst ?g) t (snd ?g) = Some (fst ?a, ?st2)"
    using v by (rule limiter_Allow_Some)
  have "if fst ?a then
        RateLimiter_ServeHTTP config next now created t w r st d =
          Some (fst (next w r d), ?st2, snd (next w r d))
      else
        RateLimiter_ServeHTTP config next now created t w r st d =
          Some (w\<lparr>header := (header w)(''Content-Type'' \<mapsto> [''application/json''],
                                       ''Retry-After'' \<mapsto> [''1'']),
                  status := Some 429,
                  body := body w @ rate_limited_body\<rparr>, ?st2, d)"
    using assms(2)
    by (simp add: RateLimiter_ServeHTTP_def Let_def split_beta a Write_def WriteHeader_def Header_Set_def)
  then show ?thesis
    using a sublist_code_in_body by (intro exI [of _ "fst ?g"] exI [of _ "snd ?g"] exI [of _ "fst ?a"] exI [of _ ?st2]) simp
qed

text \<open>
  Examples with the downstream handler that counts its calls: rejected on the exhausted
  bucket, with no call; admitted on a new bucket, with one call.
\<close>

theorem RateLimiter_ServeHTTP_outcome_witness:
  \<open>pointers_valid exhausted_registry \<and> pointers_valid empty_registry \<and> status fresh_writer = None \<and>
   map_option fst
     (RateLimiter_ServeHTTP (DefaultRateLimiterConfig host_before_port) counting_handler 9 5 5
        fresh_writer (example_request []) exhausted_registry 0) =
     Some \<lparr>header = [''Content-Type'' \<mapsto> [''application/json''], ''Retry-After'' \<mapsto> [''1'']],
           status = Some 429, body = rate_limited_body\<rparr> \<and>
   map_option (snd \<circ> snd)
     (RateLimiter_ServeHTTP (DefaultRateLimiterConfig host_before_port) counting_handler 9 5 5
        fresh_writer (example_request []) exhausted_registry 0) = Some 0 \<and>
   map_option fst
     (RateLimiter_ServeHTTP (DefaultRateLimiterConfig host_before_port) counting_handler 9 5 5
        fresh_writer (example_request []) empty_registry 0) = Some fresh_writer \<and>
   map_option (snd \<circ> snd)
     (RateLimiter_ServeHTTP (DefaultRateLimiterConfig host_before_port) counting_handler 9 5 5
        fresh_writer (example_request []) empty_registry 0) = Some 1\<close>
proof -
  have 1: "pointers_valid exhausted_registry" and 2: "pointers_valid empty_registry"
    by (simp_all add: pointers_valid_def exhausted_registry_def empty_registry_def)
  have 3: "status fresh_writer = None"
    by (simp add: fresh_writer_def)
  have key: "KeyFunc (DefaultRateLimiterConfig host_before_port) (example_request []) = ''192.0.2.7''"
    by (simp add: DefaultRateLimiterConfig_def GetRealIP_def example_request_def host_before_port_def)
  have g1: "getLimiter (DefaultRateLimiterConfig host_before_port) ''192.0.2.7'' 9 5 exhausted_registry =
      (0, exhausted_registry\<lparr>limiters := [(''192.0.2.7'', \<lparr>limiter = 0, lastAccess = 9\<rparr>)]\<rparr>)"
    by (simp add: getLimiter_def getLimiter_RLock_def exhausted_registry_def)
  have g2: "getLimiter (DefaultRateLimiterConfig host_before_port) ''192.0.2.7'' 9 5 empty_registry =
      (0, \<lparr>limiters = [(''192.0.2.7'', \<lparr>limiter = 0, lastAccess = 9\<rparr>)], objects = [NewLimiter 10 20 5]\<rparr>)"
    by (simp add: getLimiter_def getLimiter_RLock_def getLimiter_Lock_def empty_registry_def
        DefaultRateLimiterConfig_def)
  let ?cfg = "DefaultRateLimiterConfig host_before_port"
  let ?r = "example_request []"
  have a1: "\<exists>st2. limiter_Allow 0 5
      (exhausted_registry\<lparr>limiters := [(''192.0.2.7'', \<lparr>limiter = 0, lastAccess = 9\<rparr>)]\<rparr>) = Some (False, st2)"
    by (simp add: limiter_Allow_def exhausted_registry_def Allow_def refill_def)
  have a2: "\<exists>st2. limiter_Allow 0 5
      \<lparr>limiters = [(''192.0.2.7'', \<lparr>limiter = 0, lastAccess = 9\<rparr>)], objects = [NewLimiter 10 20 5]\<rparr> =
      Some (True, st2)"
    by (simp add: limiter_Allow_def Allow_def refill_def NewLimiter_def)
  from RateLimiter_ServeHTTP_outcome [OF 1 3, of ?cfg ?r 9 5 5 counting_handler 0]
  obtain st2 where
    "RateLimiter_ServeHTTP ?cfg counting_handler 9 5 5 fresh_writer ?r exhausted_registry 0 =
       Some (fresh_writer\<lparr>header := (header fresh_writer)(''Content-Type'' \<mapsto> [''application/json''],
                                       ''Retry-After'' \<mapsto> [''1'']),
                  status := Some 429,
                  body := body fresh_writer @ rate_limited_body\<rparr>, st2, 0)"
    using a1 by (auto simp: key g1)
  then have rejected:
    "map_option fst (RateLimiter_ServeHTTP ?cfg counting_handler 9 5 5 fresh_writer ?r exhausted_registry 0) =
       Some \<lparr>header = [''Content-Type'' \<mapsto> [''application/json''], ''Retry-After'' \<mapsto> [''1'']],
             status = Some 429, body = rate_limited_body\<rparr>"
    "map_option (snd \<circ> snd)
       (RateLimiter_ServeHTTP ?cfg counting_handler 9 5 5 fresh_writer ?r exhausted_registry 0) = Some 0"
    by (simp_all add: fresh_writer_def)
  from RateLimiter_ServeHTTP_outcome [OF 2 3, of ?cfg ?r 9 5 5 counting_handler 0]
  obtain st3 where
    "RateLimiter_ServeHTTP ?cfg counting_handler 9 5 5 fresh_writer ?r empty_registry 0 =
       Some (fst (counting_handler fresh_writer ?r 0), st3, snd (counting_handler fresh_writer ?r 0))"
    using a2 by (auto simp: key g2)
  then have admitted:
    "map_option fst (RateLimiter_ServeHTTP ?cfg counting_handler 9 5 5 fresh_writer ?r empty_registry 0) =
       Some fresh_writer"
    "map_option (snd \<circ> snd)
       (RateLimiter_ServeHTTP ?cfg counting_handler 9 5 5 fresh_writer ?r empty_registry 0) = Some 1"
    by (simp_all add: counting_handler_def)
  show ?thesis
    using 1 2 3 rejected admitted by simp
qed

section \<open>Properties of the constructor and of the cleanup goroutine\<close>

lemma step_flags:
  "\<not> ctx_cancelled m \<Longrightarrow>
   \<not> ctx_cancelled (step e m) \<and> cleanup_running (step e m) = cleanup_running m \<and>
   process_panicked (step e m) = process_panicked m"
  by (cases e) (auto split: option.splits)

lemma run_flags:
  "\<not> ctx_cancelled m \<Longrightarrow>
   \<not> ctx_cancelled (run es m) \<and> cleanup_running (run es m) = cleanup_running m \<and>
   process_panicked (run es m) = process_panicked m"
proof (induction es arbitrary: m)
  case Nil
  then show ?case by simp
next
  case (Cons e es)
  from step_flags [OF Cons.prems, of e] Cons.IH [of "step e m"] show ?case by simp
qed

lemma RateLimiter_flags:
  assumes "RateLimiter config = Return m"
  shows "\<not> ctx_cancelled m"
    and "0 \<le>s CleanupInterval config \<Longrightarrow> cleanup_running m \<and> \<not> process_panicked m"
    and "CleanupInterval config <s 0 \<Longrightarrow> \<not> cleanup_running m \<and> process_panicked m"
proof -
  let ?i = "if CleanupInterval config = 0 then 5 * 60000000000 else CleanupInterval config"
  have m: "\<not> ctx_cancelled m" "cleanup_running m = (0 <s ?i)" "process_panicked m = (\<not> 0 <s ?i)"
    using assms
    by (cases "CleanupInterval config = 0"; cases "InactiveTTL config = 0";
        auto simp: RateLimiter_def Let_def)+
  show "\<not> ctx_cancelled m" by (rule m(1))
  have five: "(0 :: int64) <s 5 * 60000000000"
    by (simp add: word_sless_alt)
  show "cleanup_running m \<and> \<not> process_panicked m" if "0 \<le>s CleanupInterval config"
    using that five m by (cases "CleanupInterval config = 0") (auto simp: word_sless_eq)
  show "\<not> cleanup_running m \<and> process_panicked m" if "CleanupInterval config <s 0"
  proof -
    have "CleanupInterval config \<noteq> 0" "\<not> 0 <s CleanupInterval config"
      using that by (auto simp: word_sless_alt)
    then show ?thesis using m by simp
  qed
qed

text \<open>
  C8, as stated: a rate or burst that is not positive makes the construction fail. It
  does not: with rate 0 and burst -1 the constructor returns.
\<close>

theorem RateLimiter_rejects_nothing_counterexample:
  "\<not> (RequestsPerSecond invalid_config \<le> 0 \<or> Burst invalid_config \<le> 0 \<longrightarrow>
        (\<exists>msg. RateLimiter invalid_config = Panic msg))"
  by (simp add: invalid_config_def RateLimiter_def Let_def DefaultRateLimiterConfig_def)

text \<open>
  C8, amended. The constructor returns a middleware whatever the rate and the burst, and
  reports nothing. The rate and the burst are kept as given, also when they are not positive, and
  every bucket is built with them; only a cleanup interval or a time-to-live of 0 is
  replaced, by 5 and 10 minutes.
\<close>

theorem RateLimiter_always_constructs:
  "\<exists>m. RateLimiter config = Return m \<and>
       RequestsPerSecond (configuration m) = RequestsPerSecond config \<and>
       Burst (configuration m) = Burst config \<and>
       KeyFunc (configuration m) = KeyFunc config \<and>
       CleanupInterval (configuration m) =
         (if CleanupInterval config = 0 then 5 * 60000000000 else CleanupInterval config) \<and>
       InactiveTTL (configuration m) =
         (if InactiveTTL config = 0 then 10 * 60000000000 else InactiveTTL config) \<and>
       state m = \<lparr>limiters = [], objects = []\<rparr> \<and>
       objects (snd (getLimiter (configuration m) key now created (state m))) =
         [\<lparr>capacity = of_int (Burst config), refillRatePerSecond = RequestsPerSecond config,
           tokens = of_int (Burst config), lastRefill = created\<rparr>]"
  by (simp add: RateLimiter_def Let_def getLimiter_def getLimiter_RLock_def getLimiter_Lock_def
      NewLimiter_def)

text \<open>
  Example: from the configuration with rate 0 and burst -1 the first bucket has capacity
  -1, rate 0 and -1 tokens.
\<close>

theorem RateLimiter_always_constructs_witness:
  "\<exists>m. RateLimiter invalid_config = Return m \<and>
       RequestsPerSecond (configuration m) = 0 \<and> Burst (configuration m) = - 1 \<and>
       objects (snd (getLimiter (configuration m) ''192.0.2.7'' 9 5 (state m))) =
         [\<lparr>capacity = - 1, refillRatePerSecond = 0, tokens = - 1, lastRefill = 5\<rparr>]"
  using RateLimiter_always_constructs [of invalid_config "''192.0.2.7''" 9 5]
  by (auto simp: invalid_config_def)

text \<open>
  C9, as stated: the cleanup goroutine can be stopped through a cancellation signal. It
  cannot: whatever requests are served and whatever the goroutine selects, it is still
  running.
\<close>

theorem cleanup_goroutine_stoppable_counterexample:
  "\<not> (\<exists>m (es :: nat event list).
        RateLimiter (DefaultRateLimiterConfig host_before_port) = Return m \<and>
        \<not> cleanup_running (run es m))"
proof
  assume "\<exists>m (es :: nat event list).
        RateLimiter (DefaultRateLimiterConfig host_before_port) = Return m \<and>
        \<not> cleanup_running (run es m)"
  then obtain m and es :: "nat event list"
    where m: "RateLimiter (DefaultRateLimiterConfig host_before_port) = Return m"
      and stopped: "\<not> cleanup_running (run es m)"
    by blast
  have "0 \<le>s CleanupInterval (DefaultRateLimiterConfig host_before_port)"
    by (simp add: DefaultRateLimiterConfig_def word_sle_eq)
  with m have "cleanup_running m" and "\<not> ctx_cancelled m"
    by (simp_all add: RateLimiter_flags)
  then have "cleanup_running (run es m)"
    by (simp add: run_flags)
  with stopped show False by simp
qed

text \<open>
  C9, amended. The goroutine watches the context and would leave its loop at the first
  \<^verbatim>\<open>ctx.Done()\<close> after a call of \<^verbatim>\<open>cancel\<close>; but the constructor drops
  \<^verbatim>\<open>cancel\<close>, so the context is never cancelled. With a cleanup interval that is not
  negative (0 stands for 5 minutes) the goroutine runs as long as the process, whatever
  is served and selected. With a negative interval it never enters its loop:
  \<^verbatim>\<open>time.NewTicker\<close> panics and the process ends. In neither case does a signal stop
  it.
\<close>

theorem cleanup_goroutine_never_stopped:
  "(RateLimiter config = Return m \<longrightarrow> \<not> ctx_cancelled (run es m)) \<and>
   (RateLimiter config = Return m \<and> 0 \<le>s CleanupInterval config \<longrightarrow>
      cleanup_running (run es m) \<and> \<not> process_panicked (run es m)) \<and>
   (RateLimiter config = Return m \<and> CleanupInterval config <s 0 \<longrightarrow>
      \<not> cleanup_running (run es m) \<and> process_panicked (run es m)) \<and>
   (cleanup_running m' \<and> \<not> process_panicked m' \<longrightarrow>
      \<not> cleanup_running (step Select_ctx_Done (cancel m')))"
proof -
  have never: "\<not> ctx_cancelled (run es m)" if "RateLimiter config = Return m"
    using RateLimiter_flags(1) [OF that] by (simp add: run_flags)
  have runs: "cleanup_running (run es m) \<and> \<not> process_panicked (run es m)"
    if "RateLimiter config = Return m \<and> 0 \<le>s CleanupInterval config"
    using RateLimiter_flags(1,2) [of config m] that by (simp add: run_flags)
  have dies: "\<not> cleanup_running (run es m) \<and> process_panicked (run es m)"
    if "RateLimiter config = Return m \<and> CleanupInterval config <s 0"
    using RateLimiter_flags(1,3) [of config m] that by (simp add: run_flags)
  have would: "\<not> cleanup_running (step Select_ctx_Done (cancel m'))"
    if "cleanup_running m' \<and> \<not> process_panicked m'"
    using that by (simp add: cancel_def)
  show ?thesis
    using never runs dies would by blast
qed

text \<open>
  Example: the middleware of the default configuration after a request, a tick and two
  attempts at \<^verbatim>\<open>ctx.Done()\<close>; the same middleware had \<^verbatim>\<open>cancel\<close> been called; and
  the middleware of the configuration with an interval of -1 ns.
\<close>

theorem cleanup_goroutine_never_stopped_witness:
  "RateLimiter (DefaultRateLimiterConfig host_before_port) = Return default_middleware \<and>
   0 \<le>s CleanupInterval (DefaultRateLimiterConfig host_before_port) \<and>
   cleanup_running
     (run [Serve counting_handler 9 5 5 fresh_writer (example_request []) 0,
           Select_ctx_Done, Select_ticker_C 600000000500, Select_ctx_Done] default_middleware) \<and>
   \<not> ctx_cancelled
     (run [Serve counting_handler 9 5 5 fresh_writer (example_request []) 0,
           Select_ctx_Done, Select_ticker_C 600000000500, Select_ctx_Done] default_middleware) \<and>
   cleanup_running default_middleware \<and> \<not> process_panicked default_middleware \<and>
   \<not> cleanup_running (step (Select_ctx_Done :: nat event) (cancel default_middleware)) \<and>
   CleanupInterval negative_interval_config <s 0 \<and>
   (\<exists>m. RateLimiter negative_interval_config = Return m \<and>
        process_panicked (run [Select_ticker_C 600000000500 :: nat event] m) \<and>
        \<not> cleanup_running (run [Select_ticker_C 600000000500 :: nat event] m))"
proof -
  let ?es = "[Serve counting_handler 9 5 5 fresh_writer (example_request []) 0,
           Select_ctx_Done, Select_ticker_C 600000000500, Select_ctx_Done]"
  have r: "RateLimiter (DefaultRateLimiterConfig host_before_port) = Return default_middleware"
    by (simp add: RateLimiter_def default_middleware_def DefaultRateLimiterConfig_def Let_def
        word_sless_alt)
  have i: "0 \<le>s CleanupInterval (DefaultRateLimiterConfig host_before_port)"
    by (simp add: DefaultRateLimiterConfig_def word_sle_eq)
  have c: "cleanup_running default_middleware \<and> \<not> process_panicked default_middleware"
    by (simp add: default_middleware_def)
  obtain m where n: "RateLimiter negative_interval_config = Return m"
    by (simp add: RateLimiter_def Let_def)
  have j: "CleanupInterval negative_interval_config <s 0"
    by (simp add: negative_interval_config_def word_sless_alt)
  note inst = cleanup_goroutine_never_stopped
      [of "DefaultRateLimiterConfig host_before_port" default_middleware ?es default_middleware]
  note neg = cleanup_goroutine_never_stopped
      [of negative_interval_config m "[Select_ticker_C 600000000500 :: nat event]" default_middleware]
  have 1: "cleanup_running (run ?es default_middleware)"
    using inst [THEN conjunct2, THEN conjunct1, THEN mp, OF conjI [OF r i], THEN conjunct1] .
  have 2: "\<not> ctx_cancelled (run ?es default_middleware)"
    using inst [THEN conjunct1, THEN mp, OF r] .
  have 3: "\<not> cleanup_running (step (Select_ctx_Done :: nat event) (cancel default_middleware))"
    using inst [THEN conjunct2, THEN conjunct2, THEN conjunct2, THEN mp, OF c] .
  have 4: "process_panicked (run [Select_ticker_C 600000000500 :: nat event] m) \<and>
        \<not> cleanup_running (run [Select_ticker_C 600000000500 :: nat event] m)"
    using neg [THEN conjunct2, THEN conjunct2, THEN conjunct1, THEN mp, OF conjI [OF n j]] by simp
  have 5: "\<exists>m. RateLimiter negative_interval_config = Return m \<and>
        process_panicked (run [Select_ticker_C 600000000500 :: nat event] m) \<and>
        \<not> cleanup_running (run [Select_ticker_C 600000000500 :: nat event] m)"
    using n 4 by blast
  show ?thesis
    by (intro conjI r i 1 2 c [THEN conjunct1] c [THEN conjunct2] 3 j 5)
qed

end
